theory Spec2Isabelle
  imports Main "HOL-Library.Word"
begin

unbundle bit_operations_syntax

chapter \<open>The embedding\<close>

section \<open>Common data\<close>

text \<open>
  A byte (an element of a Python \<open>bytes\<close> object, a \<open>uint8\<close> channel value of a
  numpy array, an entry of the GF(256) tables) is an 8-bit word. Python integers that
  count or index are natural numbers. Exceptions are values of \<open>error\<close>.
\<close>

type_synonym byte = "8 word"
type_synonym bytes = "byte list"

datatype error =
    IndexError | KeyError | ValueError | OSError | OverflowError
  | BinasciiError | FileNotFoundError

text \<open>JSON values as \<open>json.loads\<close> and \<open>json.dumps\<close> exchange them.\<close>

datatype json =
    JNull | JBool bool | JNum int | JStr string
  | JArr "json list" | JObj "(string \<times> json) list"

section \<open>GF(256) arithmetic and Reed-Solomon (silicon_rs_watermark.py)\<close>

text \<open>
  The tables \<open>GF_EXP\<close> (512 entries) and \<open>GF_LOG\<close> (256 entries) are lists of Python
  integers, filled by \<open>init_gf_tables\<close> when the module is loaded. \<open>gf_fill\<close> is the
  body of its first loop on the state \<open>(x, GF_EXP, GF_LOG)\<close>; the second loop copies
  \<open>GF_EXP[i - 255]\<close> to \<open>GF_EXP[i]\<close>.
\<close>

definition PRIM :: nat where
  "PRIM = 0x11d"

definition gf_fill :: "nat \<Rightarrow> nat \<times> nat list \<times> nat list \<Rightarrow> nat \<times> nat list \<times> nat list" where
  "gf_fill i s =
     (case s of (x, ex, lg) \<Rightarrow>
        let ex1 = ex[i := x];
            lg1 = lg[x := i];
            x1 = push_bit 1 x;
            x2 = (if x1 AND 0x100 \<noteq> 0 then x1 XOR PRIM else x1)
        in (x2, ex1, lg1))"

definition init_gf_tables :: "nat list \<times> nat list" where
  "init_gf_tables =
     (case fold gf_fill [0..<255] (1, replicate 512 0, replicate 256 0) of
        (x, ex, lg) \<Rightarrow> (fold (\<lambda>i e. e[i := e ! (i - 255)]) [255..<512] ex, lg))"

definition GF_EXP :: "nat list" where
  "GF_EXP = fst init_gf_tables"

definition GF_LOG :: "nat list" where
  "GF_LOG = snd init_gf_tables"

text \<open>
  \<open>gf_mul\<close> on field elements, which are bytes: the index into \<open>GF_LOG\<close> is below 256
  and the index into \<open>GF_EXP\<close> is below 255, so no lookup leaves its table.
\<close>

definition gf_mul :: "byte \<Rightarrow> byte \<Rightarrow> byte" where
  "gf_mul x y =
     (if x = 0 \<or> y = 0 then 0
      else of_nat (GF_EXP ! ((GF_LOG ! unat x + GF_LOG ! unat y) mod 255)))"

text \<open>
  \<open>gf_poly_mul\<close>: the result list \<open>r\<close> starts as \<open>len(p) + len(q) - 1\<close> zeros and is
  updated in place by the two nested loops.
\<close>

definition gf_poly_mul :: "bytes \<Rightarrow> bytes \<Rightarrow> bytes" where
  "gf_poly_mul p q =
     fold (\<lambda>j r. fold (\<lambda>i r. r[i + j := r ! (i + j) XOR gf_mul (p ! i) (q ! j)])
                     [0..<length p] r)
       [0..<length q] (replicate (length p + length q - 1) 0)"

text \<open>
  \<open>rs_generator_poly\<close> reads \<open>GF_EXP[i]\<close> for \<open>i < nsym\<close>; the only caller passes
  \<open>RS_NSYM = 32\<close>.
\<close>

definition rs_generator_poly :: "nat \<Rightarrow> bytes" where
  "rs_generator_poly nsym =
     fold (\<lambda>i g. gf_poly_mul g [1, of_nat (GF_EXP ! i)]) [0..<nsym] [1]"

text \<open>
  \<open>rs_encode\<close>: synthetic division of \<open>data\<close> followed by \<open>nsym\<close> zeros by the
  generator, in place on \<open>msg_out\<close>; the result is \<open>data\<close> followed by the last
  \<open>nsym\<close> entries of \<open>msg_out\<close>.
\<close>

definition rs_encode :: "bytes \<Rightarrow> nat \<Rightarrow> bytes" where
  "rs_encode data nsym =
     (let gen = rs_generator_poly nsym;
          msg_out =
            fold (\<lambda>i m. let coef = m ! i in
                    if coef \<noteq> 0
                    then fold (\<lambda>j m. m[i + j := m ! (i + j) XOR gf_mul (gen ! j) coef])
                           [0..<length gen] m
                    else m)
              [0..<length data] (data @ replicate nsym 0)
      in data @ drop (length data) msg_out)"

text \<open>
  \<open>gf_poly_eval\<close> starts from \<open>poly[0]\<close>, which raises \<open>IndexError\<close> on an empty list.
\<close>

definition gf_poly_eval :: "bytes \<Rightarrow> byte \<Rightarrow> error + byte" where
  "gf_poly_eval poly x =
     (if poly = [] then Inl IndexError
      else Inr (fold (\<lambda>i y. gf_mul y x XOR poly ! i) [1..<length poly] (poly ! 0)))"

text \<open>A list comprehension whose elements may raise: the first exception leaves it.\<close>

fun collect :: "(error + 'a) list \<Rightarrow> error + 'a list" where
  "collect [] = Inr []"
| "collect (Inl e # rs) = Inl e"
| "collect (Inr v # rs) = (case collect rs of Inl e \<Rightarrow> Inl e | Inr vs \<Rightarrow> Inr (v # vs))"

text \<open>\<open>rs_syndromes\<close>: a leading 0, then the value of the message at each \<open>GF_EXP[i]\<close>.\<close>

definition rs_syndromes :: "bytes \<Rightarrow> nat \<Rightarrow> error + bytes" where
  "rs_syndromes msg nsym =
     (case collect (map (\<lambda>i. gf_poly_eval msg (of_nat (GF_EXP ! i))) [0..<nsym]) of
        Inl e \<Rightarrow> Inl e
      | Inr s \<Rightarrow> Inr (0 # s))"

text \<open>
  \<open>rs_decode_simple\<close>: \<open>msg[:-nsym]\<close> when \<open>max(synd) == 0\<close>, else \<open>ValueError\<close>. The
  slice \<open>msg[:-0]\<close> is empty.
\<close>

definition rs_decode_simple :: "bytes \<Rightarrow> nat \<Rightarrow> error + bytes" where
  "rs_decode_simple msg nsym =
     (case rs_syndromes msg nsym of
        Inl e \<Rightarrow> Inl e
      | Inr synd \<Rightarrow>
          if Max (set synd) = 0
          then Inr (if nsym = 0 then [] else take (length msg - nsym) msg)
          else Inl ValueError)"

definition RS_NSYM :: nat where
  "RS_NSYM = 32"

section \<open>Watermark engine (silicon_rs_watermark.py)\<close>

definition SIGNATURE_REPEATS :: nat where
  "SIGNATURE_REPEATS = 5"

text \<open>
  An image file as PIL and numpy show it to the program: its height and width, the
  \<open>uint8\<close> array of shape \<open>(h, w, 3)\<close> that \<open>np.array(img.convert('RGB'))\<close> gives,
  flattened in raster-then-channel order (which is also \<open>img.tobytes()\<close>), and its text
  metadata \<open>img.info\<close>. The file system maps a path to the image stored there; the
  image formats are taken to store pixels exactly.
\<close>

record image =
  height :: nat
  width :: nat
  pix :: bytes
  info :: "string \<rightharpoonup> string"

type_synonym files = "string \<rightharpoonup> image"


definition encode_signature :: "(json \<Rightarrow> bytes) \<Rightarrow> json \<Rightarrow> bytes" where
  "encode_signature dumps signature_dict = dumps signature_dict"


text \<open>\<open>n.to_bytes(4, 'big')\<close>: \<open>OverflowError\<close> when \<open>n\<close> does not fit four bytes.\<close>

definition to_bytes4 :: "nat \<Rightarrow> error + bytes" where
  "to_bytes4 n =
     (if n < 2 ^ 32
      then Inr [of_nat (n div 2 ^ 24), of_nat (n div 2 ^ 16), of_nat (n div 2 ^ 8), of_nat n]
      else Inl OverflowError)"

text \<open>The bits of a byte, most significant first: \<open>(byte >> (7 - i)) & 1\<close> for \<open>i\<close> in 0..7.\<close>

definition bits_of_byte :: "byte \<Rightarrow> byte list" where
  "bits_of_byte b = map (\<lambda>i. drop_bit (7 - i) b AND 1) [0..<8]"

definition bits_of :: "bytes \<Rightarrow> byte list" where
  "bits_of payload = concat (map bits_of_byte payload)"

text \<open>
  \<open>embed_watermark\<close>. The result is the returned value (the output path, \<open>None\<close>
  after the capacity message, or the exception raised) and the file system afterwards.
  \<open>rsw_name\<close> stands for the default output name \<open>f"{base}_rsw{ext}"\<close> that
  \<open>os.path.splitext\<close> yields. The saved image is built from the array alone, so it has
  no metadata.
\<close>

definition embed_watermark ::
  "(json \<Rightarrow> bytes) \<Rightarrow> (string \<Rightarrow> string) \<Rightarrow> files \<Rightarrow> string \<Rightarrow> json \<Rightarrow> string option
     \<Rightarrow> (error + string option) \<times> files" where
  "embed_watermark dumps rsw_name fs image_path signature_dict output_path =
     (case fs image_path of
        None \<Rightarrow> (Inl FileNotFoundError, fs)
      | Some img \<Rightarrow>
          let h = height img; w = width img; c = 3;
              raw_data = encode_signature dumps signature_dict;
              encoded_data = rs_encode raw_data RS_NSYM
          in case to_bytes4 (length encoded_data) of
               Inl e \<Rightarrow> (Inl e, fs)
             | Inr length_header \<Rightarrow>
                 let full_payload =
                       concat (replicate SIGNATURE_REPEATS (length_header @ encoded_data));
                     bits = bits_of full_payload;
                     capacity = h * w * c
                 in if length bits > capacity then (Inr None, fs)
                    else
                      let flat = fold (\<lambda>i f. f[i := (f ! i AND 0xFE) OR bits ! i])
                                   [0..<length bits] (pix img);
                          out = (case output_path of None \<Rightarrow> rsw_name image_path | Some p \<Rightarrow> p)
                      in (Inr (Some out),
                          fs(out \<mapsto> \<lparr>height = h, width = w, pix = flat, info = Map.empty\<rparr>)))"









section \<open>Protocol bridge (drivers/s9_dual_bridge.py)\<close>

text \<open>
  A socket is an opaque handle. Everything the bridge does to the outside world is
  appended to a log, in program order: a line sent on a socket, a socket closed, the
  lock taken and released, and the \<open>pop\<close> on the pending-job table.
\<close>

type_synonym sock = nat

datatype event =
    Send sock json | Close sock | LockAcquire | PendingPop string | LockRelease

text \<open>
  The part of \<open>DualBridge\<close> that the device-facing handler touches: the table
  \<open>pending_jobs\<close> (\<open>job_id\<close> to client socket) and the log of effects.
\<close>

record bridge =
  pending_jobs :: "string \<rightharpoonup> sock"
  wire :: "event list"




definition close :: "bridge \<Rightarrow> sock \<Rightarrow> bridge" where
  "close b s = b\<lparr>wire := wire b @ [Close s]\<rparr>"








section \<open>Verifier (verify_silicon_art.py)\<close>

text \<open>
  \<open>hashlib.sha256(...).digest()\<close> is a parameter \<open>sha256\<close> of the verifier: nothing below
  depends on which function it is.
\<close>

definition double_sha256 :: "(bytes \<Rightarrow> bytes) \<Rightarrow> bytes \<Rightarrow> bytes" where
  "double_sha256 sha256 data_bytes = sha256 (sha256 data_bytes)"

text \<open>
  Hexadecimal text. \<open>hex\<close> is \<open>bytes.hex()\<close> (and \<open>hexdigest\<close>): two lower-case digits
  per byte. \<open>unhexlify\<close> is \<open>binascii.unhexlify\<close> on a string: \<open>ValueError\<close> on a
  character outside ASCII, else \<open>binascii.Error\<close> on an odd length or on a character that
  is no hexadecimal digit; both cases of letters are read.
\<close>

definition hex_digit :: "nat \<Rightarrow> char" where
  "hex_digit d = ''0123456789abcdef'' ! d"

definition hex :: "bytes \<Rightarrow> string" where
  "hex bs = concat (map (\<lambda>b. [hex_digit (unat b div 16), hex_digit (unat b mod 16)]) bs)"

definition hex_value :: "char \<Rightarrow> nat option" where
  "hex_value c =
     map_of [(CHR ''0'', 0), (CHR ''1'', 1), (CHR ''2'', 2), (CHR ''3'', 3), (CHR ''4'', 4),
             (CHR ''5'', 5), (CHR ''6'', 6), (CHR ''7'', 7), (CHR ''8'', 8), (CHR ''9'', 9),
             (CHR ''a'', 10), (CHR ''b'', 11), (CHR ''c'', 12), (CHR ''d'', 13),
             (CHR ''e'', 14), (CHR ''f'', 15),
             (CHR ''A'', 10), (CHR ''B'', 11), (CHR ''C'', 12), (CHR ''D'', 13),
             (CHR ''E'', 14), (CHR ''F'', 15)] c"

fun unhex_pairs :: "string \<Rightarrow> error + bytes" where
  "unhex_pairs [] = Inr []"
| "unhex_pairs [c] = Inl BinasciiError"
| "unhex_pairs (a # b # cs) =
     (case (hex_value a, hex_value b) of
        (Some x, Some y) \<Rightarrow>
          (case unhex_pairs cs of
             Inl e \<Rightarrow> Inl e
           | Inr bs \<Rightarrow> Inr (of_nat (16 * x + y) # bs))
      | _ \<Rightarrow> Inl BinasciiError)"

definition unhexlify :: "string \<Rightarrow> error + bytes" where
  "unhexlify s =
     (if \<exists>c \<in> set s. 128 \<le> (of_char c :: nat) then Inl ValueError
      else if odd (length s) then Inl BinasciiError
      else unhex_pairs s)"

text \<open>
  \<open>int(s, 16)\<close> on the output of \<open>hex\<close>: the digits read in base 16, \<open>ValueError\<close> on
  the empty string. (Python's \<open>int\<close> also reads signs, underscores, blanks and a
  \<open>0x\<close> prefix, none of which \<open>hex\<close> produces.)
\<close>

definition int16 :: "string \<Rightarrow> error + nat" where
  "int16 s =
     (if s = [] \<or> (\<exists>c \<in> set s. hex_value c = None) then Inl ValueError
      else Inr (fold (\<lambda>c n. 16 * n + the (hex_value c)) s 0))"

text \<open>
  \<open>swab32\<close> reverses the byte pairs inside each group of eight characters and drops an
  incomplete last group. \<open>reverse_bytes\<close> joins \<open>hex_str[i:i+2]\<close> for
  \<open>i = len - 2, len - 4, ...\<close> down to 0 or 1.
\<close>

fun swab32 :: "string \<Rightarrow> string" where
  "swab32 (c0 # c1 # c2 # c3 # c4 # c5 # c6 # c7 # rest) =
     [c6, c7, c4, c5, c2, c3, c0, c1] @ swab32 rest"
| "swab32 chunk = []"

definition reverse_bytes :: "string \<Rightarrow> string" where
  "reverse_bytes hex_str =
     concat (map (\<lambda>k. take 2 (drop (length hex_str - 2 - 2 * k) hex_str))
               [0..<length hex_str div 2])"

definition target :: nat where
  "target = 0x00000000ffff0000000000000000000000000000000000000000000000000000"

text \<open>
  The dictionary \<open>comp\<close>, read from the metadata in the order of the source; a missing
  key raises \<open>KeyError\<close>. The entry \<open>nb\<close> is the literal \<open>"1d00ffff"\<close>.
\<close>

record components =
  c_v :: string
  c_p :: string
  c_en2 :: string
  c_nt :: string
  c_nb :: string
  c_no :: string

definition lookup :: "(string \<rightharpoonup> string) \<Rightarrow> string \<Rightarrow> error + string" where
  "lookup meta k = (case meta k of None \<Rightarrow> Inl KeyError | Some x \<Rightarrow> Inr x)"

definition extract_components :: "(string \<rightharpoonup> string) \<Rightarrow> error + components" where
  "extract_components meta =
     (case lookup meta ''Silicon-Auth-Version'' of Inl e \<Rightarrow> Inl e | Inr v \<Rightarrow>
      case lookup meta ''Silicon-Auth-Hash'' of Inl e \<Rightarrow> Inl e | Inr p \<Rightarrow>
      case lookup meta ''Silicon-Auth-Extranonce2'' of Inl e \<Rightarrow> Inl e | Inr en2 \<Rightarrow>
      case lookup meta ''Silicon-Auth-Ntime'' of Inl e \<Rightarrow> Inl e | Inr nt \<Rightarrow>
      case lookup meta ''Silicon-Auth-Nonce'' of Inl e \<Rightarrow> Inl e | Inr no \<Rightarrow>
        Inr \<lparr>c_v = v, c_p = p, c_en2 = en2, c_nt = nt, c_nb = ''1d00ffff'', c_no = no\<rparr>)"

text \<open>
  \<open>opts\<close> holds three renderings of each field; \<open>itertools.product\<close> runs through the
  keys in the order \<open>v, p, nt, nb, no, en2\<close>, the last one fastest.
\<close>

definition variants :: "string \<Rightarrow> string list" where
  "variants s = [s, reverse_bytes s, swab32 s]"

definition opts_product ::
  "components \<Rightarrow> (string \<times> string \<times> string \<times> string \<times> string \<times> string) list" where
  "opts_product cs =
     [(v, p, nt, nb, no, en2).
        v \<leftarrow> variants (c_v cs), p \<leftarrow> variants (c_p cs), nt \<leftarrow> variants (c_nt cs),
        nb \<leftarrow> variants (c_nb cs), no \<leftarrow> variants (c_no cs), en2 \<leftarrow> variants (c_en2 cs)]"

definition coinbase_hex :: "string \<Rightarrow> string" where
  "coinbase_hex en2 =
     concat (replicate 32 ''00'') @ ''00000000'' @ en2 @ concat (replicate 32 ''00'')"

definition header_hex ::
  "string \<Rightarrow> string \<Rightarrow> string \<Rightarrow> string \<Rightarrow> string \<Rightarrow> string \<Rightarrow> string" where
  "header_hex v p mr nt nb no = v @ p @ mr @ nt @ nb @ no"

text \<open>
  The inner loop over the renderings of the merkle root. Its result is the hash text
  of the header that passed, if one did; the list beside it holds the headers whose
  double SHA-256 was computed, in order. An exception inside \<open>try\<close> (from
  \<open>unhexlify\<close>, or from \<open>int\<close>) moves on to the next rendering.
\<close>

fun try_roots ::
  "(bytes \<Rightarrow> bytes) \<Rightarrow> string \<Rightarrow> string \<Rightarrow> string \<Rightarrow> string \<Rightarrow> string \<Rightarrow> string list
     \<Rightarrow> string option \<times> bytes list" where
  "try_roots sha256 v p nt nb no [] = (None, [])"
| "try_roots sha256 v p nt nb no (mr # mrs) =
     (case unhexlify (header_hex v p mr nt nb no) of
        Inl e \<Rightarrow> try_roots sha256 v p nt nb no mrs
      | Inr h_bytes \<Rightarrow>
          let res_hash = hex (rev (double_sha256 sha256 h_bytes));
              rest = try_roots sha256 v p nt nb no mrs
          in (case int16 res_hash of
                Inl e \<Rightarrow> (fst rest, h_bytes # snd rest)
              | Inr n \<Rightarrow>
                  if n < target then (Some res_hash, [h_bytes])
                  else (fst rest, h_bytes # snd rest)))"

text \<open>
  The outer loop over the combinations. \<open>unhexlify\<close> of the coinbase is outside any
  \<open>try\<close>: its exception leaves \<open>verify_art\<close>.
\<close>

fun search ::
  "(bytes \<Rightarrow> bytes) \<Rightarrow> (string \<times> string \<times> string \<times> string \<times> string \<times> string) list
     \<Rightarrow> (error + bool) \<times> bytes list" where
  "search sha256 [] = (Inr False, [])"
| "search sha256 ((v, p, nt, nb, no, en2) # combos) =
     (case unhexlify (coinbase_hex en2) of
        Inl e \<Rightarrow> (Inl e, [])
      | Inr cb \<Rightarrow>
          let mr_raw = hex (double_sha256 sha256 cb);
              tried = try_roots sha256 v p nt nb no (variants mr_raw)
          in (case fst tried of
                Some res_hash \<Rightarrow> (Inr True, snd tried)
              | None \<Rightarrow>
                  let rest = search sha256 combos
                  in (fst rest, snd tried @ snd rest)))"

text \<open>
  \<open>verify_art\<close>: the value returned (or the exception raised) and the headers
  evaluated. A missing file and a missing \<open>Silicon-Auth-Hash\<close> return \<open>False\<close>; then
  the structural integrity check; then the search.
\<close>

definition verify_art ::
  "(bytes \<Rightarrow> bytes) \<Rightarrow> files \<Rightarrow> string \<Rightarrow> (error + bool) \<times> bytes list" where
  "verify_art sha256 fs image_path =
     (case fs image_path of
        None \<Rightarrow> (Inr False, [])
      | Some img \<Rightarrow>
          let meta = info img in
          (case meta ''Silicon-Auth-Hash'' of
             None \<Rightarrow> (Inr False, [])
           | Some auth_hash \<Rightarrow>
               let pixel_data = pix img;
                   current_hash = hex (sha256 pixel_data)
               in if current_hash \<noteq> auth_hash then (Inr False, [])
                  else (case extract_components meta of
                          Inl e \<Rightarrow> (Inl e, [])
                        | Inr cs \<Rightarrow> search sha256 (opts_product cs))))"

section \<open>Sample inputs\<close>

text \<open>
  Concrete inputs at which the theorems below are instantiated. \<open>dumps_sample\<close> writes
  a dictionary of strings the way \<open>json.dumps\<close> with separators \<open>(',', ':')\<close> does
  when no character needs escaping; \<open>loads_sample\<close> reads such a text back and gives
  \<open>None\<close> on anything else.
\<close>

definition quoted :: "string \<Rightarrow> string" where
  "quoted s = CHR 0x22 # s @ [CHR 0x22]"

fun members :: "(string \<times> json) list \<Rightarrow> string" where
  "members [] = []"
| "members [(k, v)] = quoted k @ '':'' @ (case v of JStr s \<Rightarrow> quoted s | _ \<Rightarrow> ''null'')"
| "members ((k, v) # kvs) =
     quoted k @ '':'' @ (case v of JStr s \<Rightarrow> quoted s | _ \<Rightarrow> ''null'') @ '','' @ members kvs"

definition dumps_sample :: "json \<Rightarrow> bytes" where
  "dumps_sample j =
     map of_char (case j of JObj kvs \<Rightarrow> ''{'' @ members kvs @ ''}'' | _ \<Rightarrow> ''null'')"




text \<open>Two small records, a record too long for the length check, and blank images.\<close>

definition sample_record :: json where
  "sample_record = JObj [(''nonce'', JStr ''f16823b5''), (''ntime'', JStr ''6964c85e'')]"



definition tiny_image :: image where
  "tiny_image = \<lparr>height = 1, width = 1, pix = replicate 3 0, info = Map.empty\<rparr>"





section \<open>Notions used in the proofs\<close>

text \<open>
  One step of the table loop on \<open>x\<close> alone, its orbit from 1, and the powers of the
  generator as natural numbers and as bytes.
\<close>

definition xt :: "nat \<Rightarrow> nat" where
  "xt x = (let x1 = push_bit 1 x in if x1 AND 0x100 \<noteq> 0 then x1 XOR PRIM else x1)"

definition pw :: "nat \<Rightarrow> nat" where
  "pw i = (xt ^^ i) 1"

fun orbit :: "nat \<Rightarrow> nat \<Rightarrow> nat list" where
  "orbit 0 x = []"
| "orbit (Suc n) x = x # orbit n (xt x)"

definition gexp :: "nat \<Rightarrow> byte" where
  "gexp i = of_nat (pw i)"

definition xtw :: "byte \<Rightarrow> byte" where
  "xtw y = (if bit y 7 then push_bit 1 y XOR 29 else push_bit 1 y)"

text \<open>Horner evaluation as a fold over the coefficients, and pointwise XOR of two lists.\<close>

definition horner :: "byte \<Rightarrow> bytes \<Rightarrow> byte" where
  "horner r xs = fold (\<lambda>c y. gf_mul y r XOR c) xs 0"

definition xorl :: "bytes \<Rightarrow> bytes \<Rightarrow> bytes" where
  "xorl a b = map2 (XOR) a b"

text \<open>The body of the outer loop of \<open>rs_encode\<close>.\<close>

definition enc_step :: "bytes \<Rightarrow> nat \<Rightarrow> bytes \<Rightarrow> bytes" where
  "enc_step gen i m =
     (let coef = m ! i in
      if coef \<noteq> 0
      then fold (\<lambda>j m. m[i + j := m ! (i + j) XOR gf_mul (gen ! j) coef]) [0..<length gen] m
      else m)"

text \<open>The four bytes of \<open>to_bytes4\<close>, and the least significant bits of an image.\<close>

definition header_of :: "nat \<Rightarrow> bytes" where
  "header_of n = [of_nat (n div 2 ^ 24), of_nat (n div 2 ^ 16), of_nat (n div 2 ^ 8), of_nat n]"


text \<open>
  One copy as it is embedded: the length header followed by the encoded block. Copy \<open>k\<close>
  of an image is intact for the serialised record \<open>raw\<close> when the bits of its region are
  exactly the bits of that block. A copy lies in the image when its region ends within
  the bit list (the loop of \<open>extract_watermark\<close> stops at the first copy that does not).
\<close>

definition wm_block :: "bytes \<Rightarrow> bytes" where
  "wm_block raw = header_of (length (rs_encode raw RS_NSYM)) @ rs_encode raw RS_NSYM"



text \<open>The bit list, the pixel array and the output path that \<open>embed_watermark\<close> computes.\<close>

definition payload_bits :: "bytes \<Rightarrow> byte list" where
  "payload_bits raw = bits_of (concat (replicate SIGNATURE_REPEATS (wm_block raw)))"

definition embedded_pix :: "bytes \<Rightarrow> bytes \<Rightarrow> bytes" where
  "embedded_pix raw flat =
     fold (\<lambda>i f. f[i := (f ! i AND 0xFE) OR payload_bits raw ! i])
       [0..<length (payload_bits raw)] flat"

definition out_path :: "(string \<Rightarrow> string) \<Rightarrow> string \<Rightarrow> string option \<Rightarrow> string" where
  "out_path rsw_name image_path output_path =
     (case output_path of None \<Rightarrow> rsw_name image_path | Some p \<Rightarrow> p)"

text \<open>Strings without a double quote, and records whose keys and values are such strings.\<close>

definition plain :: "string \<Rightarrow> bool" where
  "plain s \<longleftrightarrow> CHR 0x22 \<notin> set s"

fun plain_record :: "(string \<times> json) list \<Rightarrow> bool" where
  "plain_record [] = True"
| "plain_record ((k, v) # kvs) = (plain k \<and> (case v of JStr s \<Rightarrow> plain s | _ \<Rightarrow> False) \<and> plain_record kvs)"

chapter \<open>The proofs\<close>

section \<open>GF(256): the tables and the field laws of \<open>gf_mul\<close>\<close>

lemma orbit_numeral: "orbit (numeral k) x = x # orbit (pred_numeral k) (xt x)"
  by (simp add: numeral_eq_Suc)

lemma xt_num: "xt (numeral k) = (let x1 = push_bit 1 (numeral k) in if x1 AND 0x100 \<noteq> 0 then x1 XOR PRIM else (x1::nat))"
  by (simp add: xt_def)

lemma xt_1: "xt (Suc 0) = 2"
  by (simp add: xt_def)

lemma orbit_val:
  "orbit 255 1 =
    [1, 2, 4, 8, 16, 32, 64, 128, 29, 58, 116, 232, 205, 135, 19, 38, 76, 152, 45, 90, 180,
     117, 234, 201, 143, 3, 6, 12, 24, 48, 96, 192, 157, 39, 78, 156, 37, 74, 148, 53, 106,
     212, 181, 119, 238, 193, 159, 35, 70, 140, 5, 10, 20, 40, 80, 160, 93, 186, 105, 210,
     185, 111, 222, 161, 95, 190, 97, 194, 153, 47, 94, 188, 101, 202, 137, 15, 30, 60,
     120, 240, 253, 231, 211, 187, 107, 214, 177, 127, 254, 225, 223, 163, 91, 182, 113,
     226, 217, 175, 67, 134, 17, 34, 68, 136, 13, 26, 52, 104, 208, 189, 103, 206, 129, 31,
     62, 124, 248, 237, 199, 147, 59, 118, 236, 197, 151, 51, 102, 204, 133, 23, 46, 92,
     184, 109, 218, 169, 79, 158, 33, 66, 132, 21, 42, 84, 168, 77, 154, 41, 82, 164, 85,
     170, 73, 146, 57, 114, 228, 213, 183, 115, 230, 209, 191, 99, 198, 145, 63, 126, 252,
     229, 215, 179, 123, 246, 241, 255, 227, 219, 171, 75, 150, 49, 98, 196, 149, 55, 110,
     220, 165, 87, 174, 65, 130, 25, 50, 100, 200, 141, 7, 14, 28, 56, 112, 224, 221, 167,
     83, 166, 81, 162, 89, 178, 121, 242, 249, 239, 195, 155, 43, 86, 172, 69, 138, 9, 18,
     36, 72, 144, 61, 122, 244, 245, 247, 243, 251, 235, 203, 139, 11, 22, 44, 88, 176,
     125, 250, 233, 207, 131, 27, 54, 108, 216, 173, 71, 142]"
  by (simp add: orbit_numeral xt_def PRIM_def Let_def)

lemma orbit_distinct: "distinct (orbit 255 1)"
  unfolding orbit_val by simp

lemma orbit_range: "\<forall>v \<in> set (orbit 255 1). 0 < v \<and> v < 256"
  unfolding orbit_val by simp

lemma length_orbit: "length (orbit n x) = n"
  by (induction n arbitrary: x) simp_all

lemma orbit_nth: "i < n \<Longrightarrow> orbit n x ! i = (xt ^^ i) x"
proof (induction n arbitrary: x i)
  case 0
  then show ?case by simp
next
  case (Suc n)
  show ?case
  proof (cases i)
    case 0
    then show ?thesis by simp
  next
    case (Suc j)
    with Suc.prems have "j < n" by simp
    then have "orbit n (xt x) ! j = (xt ^^ j) (xt x)" by (rule Suc.IH)
    with Suc show ?thesis by (simp add: funpow_swap1)
  qed
qed

lemma pw_nth: "i < 255 \<Longrightarrow> pw i = orbit 255 1 ! i"
  by (simp add: pw_def orbit_nth)

lemma pw_Suc: "pw (Suc i) = xt (pw i)"
  by (simp add: pw_def)

lemma pw_inj: "i < 255 \<Longrightarrow> j < 255 \<Longrightarrow> pw i = pw j \<Longrightarrow> i = j"
  using orbit_distinct by (simp add: pw_nth nth_eq_iff_index_eq length_orbit)

lemma pw_range: "i < 255 \<Longrightarrow> 0 < pw i \<and> pw i < 256"
  using orbit_range nth_mem [of i "orbit 255 1"] by (simp add: pw_nth length_orbit)

lemma pw_255: "pw 255 = 1"
proof -
  have "pw 254 = orbit 255 1 ! 254" by (rule pw_nth) simp
  also have "\<dots> = 142" by (subst orbit_val) simp
  finally have "pw 254 = 142" .
  moreover have "pw 255 = xt (pw 254)" using pw_Suc [of 254] by simp
  ultimately show ?thesis by (simp add: xt_def PRIM_def Let_def)
qed

lemma pw_surj: assumes "0 < x" "x < 256" shows "\<exists>i<255. pw i = x"
proof -
  have sub: "set (orbit 255 1) \<subseteq> {0<..<256}" using orbit_range by auto
  have "card (set (orbit 255 1)) = 255"
    using orbit_distinct by (simp add: distinct_card length_orbit)
  then have "set (orbit 255 1) = {0<..<256}"
    using sub by (intro card_subset_eq) simp_all
  with assms have "x \<in> set (orbit 255 1)" by simp
  then obtain i where "i < 255" "orbit 255 1 ! i = x"
    by (auto simp: in_set_conv_nth length_orbit)
  then show ?thesis by (auto simp: pw_nth)
qed

lemma gf_fill_fold:
  "k \<le> 255 \<Longrightarrow> length ex0 = 512 \<Longrightarrow> length lg0 = 256 \<Longrightarrow>
   \<exists>ex lg. fold gf_fill [0..<k] (1, ex0, lg0) = (pw k, ex, lg)
     \<and> length ex = 512 \<and> length lg = 256
     \<and> (\<forall>i<k. ex ! i = pw i) \<and> (\<forall>i<k. lg ! pw i = i)"
proof (induction k)
  case 0
  then show ?case by (simp add: pw_def)
next
  case (Suc k)
  then have k: "k < 255" by simp
  with Suc obtain ex lg where
    st: "fold gf_fill [0..<k] (1, ex0, lg0) = (pw k, ex, lg)"
    and len: "length ex = 512" "length lg = 256"
    and ex: "\<forall>i<k. ex ! i = pw i" and lg: "\<forall>i<k. lg ! pw i = i"
    by auto
  have step: "gf_fill k (pw k, ex, lg) = (pw (Suc k), ex[k := pw k], lg[pw k := k])"
    by (simp add: gf_fill_def pw_Suc xt_def Let_def)
  have "\<forall>i<Suc k. (ex[k := pw k]) ! i = pw i"
    using ex len k by (auto simp: nth_list_update less_Suc_eq)
  moreover have "\<forall>i<Suc k. (lg[pw k := k]) ! pw i = i"
  proof (intro allI impI)
    fix i assume i: "i < Suc k"
    show "(lg[pw k := k]) ! pw i = i"
    proof (cases "i = k")
      case True
      then show ?thesis using pw_range [OF k] len by simp
    next
      case False
      with i k have "i < k" "pw i \<noteq> pw k" using pw_inj [of i k] by auto
      then show ?thesis using lg by simp
    qed
  qed
  ultimately show ?case using st step len by simp
qed

lemma fold_upd_above:
  "j < n \<Longrightarrow> fold (\<lambda>i e. e[i := f e i]) [n..<m] e ! j = e ! j"
  by (induction m) simp_all

lemma gf_tables:
  "\<exists>ex lg. init_gf_tables = (fold (\<lambda>i e. e[i := e ! (i - 255)]) [255..<512] ex, lg)
     \<and> (\<forall>i<255. ex ! i = pw i) \<and> (\<forall>i<255. lg ! pw i = i)"
proof -
  have "length (replicate 512 (0::nat)) = 512" "length (replicate 256 (0::nat)) = 256"
    by (simp_all only: length_replicate)
  from gf_fill_fold [OF order_refl this] obtain ex lg where
    st: "fold gf_fill [0..<255] (1, replicate 512 0, replicate 256 0) = (pw 255, ex, lg)"
    and ex: "\<forall>i<255. ex ! i = pw i" and lg: "\<forall>i<255. lg ! pw i = i"
    by blast
  have "init_gf_tables = (fold (\<lambda>i e. e[i := e ! (i - 255)]) [255..<512] ex, lg)"
    by (simp only: init_gf_tables_def st prod.case)
  with ex lg show ?thesis by blast
qed

lemma GF_EXP_nth: "i < 255 \<Longrightarrow> GF_EXP ! i = pw i"
proof -
  assume i: "i < 255"
  from gf_tables obtain ex lg where
    t: "init_gf_tables = (fold (\<lambda>i e. e[i := e ! (i - 255)]) [255..<512] ex, lg)"
    and ex: "\<forall>i<255. ex ! i = pw i"
    by blast
  have "GF_EXP ! i = fold (\<lambda>i e. e[i := e ! (i - 255)]) [255..<512] ex ! i"
    by (simp only: GF_EXP_def t fst_conv)
  also have "\<dots> = ex ! i"
    using i by (rule fold_upd_above)
  finally show ?thesis using ex i by simp
qed

lemma GF_LOG_pw: "i < 255 \<Longrightarrow> GF_LOG ! pw i = i"
proof -
  assume i: "i < 255"
  from gf_tables obtain ex lg where
    t: "init_gf_tables = (fold (\<lambda>i e. e[i := e ! (i - 255)]) [255..<512] ex, lg)"
    and lg: "\<forall>i<255. lg ! pw i = i"
    by blast
  have "GF_LOG = lg"
    by (simp only: GF_LOG_def t snd_conv)
  then show ?thesis using lg i by simp
qed

lemma unat_gexp: "i < 255 \<Longrightarrow> unat (gexp i) = pw i"
  using pw_range [of i] by (simp add: gexp_def unat_of_nat)

lemma gexp_nonzero: "i < 255 \<Longrightarrow> gexp i \<noteq> 0"
  using pw_range [of i] unat_gexp [of i] by (metis less_numeral_extra(3) unat_0)

lemma gexp_surj: "x \<noteq> 0 \<Longrightarrow> \<exists>i<255. x = gexp i"
proof -
  assume "x \<noteq> 0"
  then have "0 < unat x" by (simp add: unat_gt_0)
  moreover have "unat x < 256" using unsigned_less [of x, where ?'a = nat] by simp
  ultimately obtain i where "i < 255" "pw i = unat x" using pw_surj by blast
  then have "x = gexp i" by (simp add: gexp_def)
  with \<open>i < 255\<close> show ?thesis by blast
qed

lemma gf_mul_gexp:
  "a < 255 \<Longrightarrow> b < 255 \<Longrightarrow> gf_mul (gexp a) (gexp b) = gexp ((a + b) mod 255)"
proof -
  assume ab: "a < 255" "b < 255"
  have "gf_mul (gexp a) (gexp b) =
      of_nat (GF_EXP ! ((GF_LOG ! unat (gexp a) + GF_LOG ! unat (gexp b)) mod 255))"
    using ab by (simp add: gf_mul_def gexp_nonzero)
  also have "\<dots> = of_nat (GF_EXP ! ((a + b) mod 255))"
    using ab by (simp add: unat_gexp GF_LOG_pw)
  also have "\<dots> = gexp ((a + b) mod 255)"
    by (simp add: GF_EXP_nth gexp_def)
  finally show ?thesis .
qed

lemma gf_mul_zero [simp]: "gf_mul 0 y = 0" "gf_mul x 0 = 0"
  by (simp_all add: gf_mul_def)

lemma gf_mul_commute: "gf_mul x y = gf_mul y x"
  by (simp add: gf_mul_def add.commute disj_commute)

lemma gf_mul_assoc: "gf_mul (gf_mul x y) z = gf_mul x (gf_mul y z)"
proof (cases "x = 0 \<or> y = 0 \<or> z = 0")
  case True
  then show ?thesis by auto
next
  case False
  then obtain a b c where abc: "a < 255" "b < 255" "c < 255"
    and xyz: "x = gexp a" "y = gexp b" "z = gexp c"
    using gexp_surj by metis
  have "((a + b) mod 255 + c) mod 255 = (a + (b + c) mod 255) mod 255"
    by (simp add: mod_simps add.assoc)
  then show ?thesis using abc by (simp add: xyz gf_mul_gexp)
qed

lemma gexp_0: "gexp 0 = 1"
  by (simp add: gexp_def pw_def)

lemma gf_mul_one [simp]: "gf_mul 1 y = y" "gf_mul y 1 = y"
proof -
  show "gf_mul 1 y = y"
  proof (cases "y = 0")
    case False
    then obtain b where "b < 255" "y = gexp b" using gexp_surj by blast
    then show ?thesis using gf_mul_gexp [of 0 b] by (simp add: gexp_0)
  qed simp
  then show "gf_mul y 1 = y" by (simp add: gf_mul_commute)
qed

lemma xt_bit: "xt x = (if bit x 7 then push_bit 1 x XOR PRIM else push_bit 1 x)"
proof -
  have "push_bit 1 x AND (2::nat) ^ 8 = 0 \<longleftrightarrow> \<not> bit (push_bit 1 x) 8"
    by (rule and_exp_eq_0_iff_not_bit)
  moreover have "bit (push_bit 1 x) 8 \<longleftrightarrow> bit x 7"
    by (simp only: bit_push_bit_iff) simp
  moreover have "(0x100::nat) = 2 ^ 8"
    by simp
  ultimately have "(push_bit 1 x AND 0x100 \<noteq> 0) = bit x 7"
    by (simp only: simp_thms)
  then show ?thesis by (simp only: xt_def Let_def)
qed

lemma n285: "(285 :: byte) = 29"
  by simp

lemma of_nat_xt: "(of_nat (xt x) :: byte) = xtw (of_nat x)"
proof -
  have "bit (of_nat x :: byte) 7 \<longleftrightarrow> bit x 7"
    by (simp add: bit_of_nat_iff)
  moreover have "(of_nat (push_bit 1 x XOR PRIM) :: byte) = push_bit 1 (of_nat x) XOR 29"
    by (simp add: of_nat_xor_eq of_nat_push_bit PRIM_def n285)
  moreover have "(of_nat (push_bit 1 x) :: byte) = push_bit 1 (of_nat x)"
    by (simp add: of_nat_push_bit)
  ultimately show ?thesis by (simp add: xt_bit xtw_def)
qed

lemma xor_cancel_both: "(a XOR k) XOR (b XOR k) = a XOR b" for a b k :: byte
  by (rule bit_eqI) (auto simp: bit_xor_iff)

lemma xor_shift_left: "(a XOR k) XOR b = (a XOR b) XOR k" for a b k :: byte
  by (rule bit_eqI) (auto simp: bit_xor_iff)

lemma xor_shift_right: "a XOR (b XOR k) = (a XOR b) XOR k" for a b k :: byte
  by (rule bit_eqI) (auto simp: bit_xor_iff)

lemma xor_twice: "(a XOR k) XOR k = a" for a k :: byte
  by (rule bit_eqI) (auto simp: bit_xor_iff)

lemma xtw_xor: "xtw (y XOR z) = xtw y XOR xtw z"
proof -
  have p: "push_bit 1 (y XOR z) = push_bit 1 y XOR push_bit 1 z"
    by (rule push_bit_xor)
  have b: "bit (y XOR z) 7 \<longleftrightarrow> (bit y 7 \<noteq> bit z 7)"
    by (rule bit_xor_iff)
  show ?thesis
    unfolding xtw_def p b
    by (cases "bit y 7"; cases "bit z 7")
      (simp_all only: if_True if_False simp_thms xor_cancel_both xor_shift_left
        xor_shift_right xor_twice)
qed

lemma xtw_0: "xtw 0 = 0"
  by (simp add: xtw_def)

lemma gf_mul_gexp1: "gf_mul (gexp (Suc 0)) y = xtw y"
proof (cases "y = 0")
  case True
  then show ?thesis by (simp add: xtw_0)
next
  case False
  then obtain b where b: "b < 255" "y = gexp b" using gexp_surj by blast
  have "gexp ((1 + b) mod 255) = of_nat (pw (Suc b))"
  proof (cases "Suc b < 255")
    case True
    then show ?thesis by (simp add: gexp_def)
  next
    case False
    with b have "Suc b = 255" by simp
    then have "pw (Suc b) = 1" "(1 + b) mod 255 = 0" by (simp_all add: pw_255)
    then show ?thesis by (simp add: gexp_0)
  qed
  also have "\<dots> = xtw (gexp b)" by (simp add: pw_Suc of_nat_xt gexp_def)
  finally show ?thesis using b gf_mul_gexp [of "Suc 0" b] by simp
qed

lemma gf_mul_gexp_linear:
  "i < 255 \<Longrightarrow> gf_mul (gexp i) (y XOR z) = gf_mul (gexp i) y XOR gf_mul (gexp i) z"
proof (induction i arbitrary: y z)
  case 0
  then show ?case by (simp add: gexp_0)
next
  case (Suc i)
  then have i: "i < 255" "Suc i < 255" by simp_all
  have e: "gexp (Suc i) = gf_mul (gexp (Suc 0)) (gexp i)"
    using i gf_mul_gexp [of "Suc 0" i] by simp
  have "gf_mul (gexp (Suc i)) w = xtw (gf_mul (gexp i) w)" for w
  proof -
    have "gf_mul (gexp (Suc i)) w = gf_mul (gf_mul (gexp (Suc 0)) (gexp i)) w"
      by (simp only: e)
    also have "\<dots> = gf_mul (gexp (Suc 0)) (gf_mul (gexp i) w)"
      by (rule gf_mul_assoc)
    also have "\<dots> = xtw (gf_mul (gexp i) w)"
      by (rule gf_mul_gexp1)
    finally show ?thesis .
  qed
  then show ?case using Suc.IH [OF i(1)] by (simp add: xtw_xor)
qed

lemma gf_mul_xor_right: "gf_mul x (y XOR z) = gf_mul x y XOR gf_mul x z"
proof (cases "x = 0")
  case True
  then show ?thesis by simp
next
  case False
  then obtain a where "a < 255" "x = gexp a" using gexp_surj by blast
  then show ?thesis by (simp add: gf_mul_gexp_linear)
qed

lemma gf_mul_xor_left: "gf_mul (x XOR y) z = gf_mul x z XOR gf_mul y z"
  using gf_mul_xor_right [of z x y] by (simp add: gf_mul_commute)

section \<open>Reed-Solomon: the codeword vanishes at the roots of the generator\<close>

lemma fold_xor_at_length:
  "length (fold (\<lambda>j m. m[i + j := m ! (i + j) XOR f j]) [0..<n] m) = length m"
  by (induction n) simp_all

lemma fold_xor_at_nth:
  "i + n \<le> length m \<Longrightarrow> k < length m \<Longrightarrow>
   fold (\<lambda>j m. m[i + j := m ! (i + j) XOR f j]) [0..<n] m ! k =
     (if i \<le> k \<and> k < i + n then m ! k XOR f (k - i) else m ! k)"
proof (induction n arbitrary: k)
  case 0
  then show ?case by auto
next
  case (Suc n)
  let ?m = "fold (\<lambda>j m. m[i + j := m ! (i + j) XOR f j]) [0..<n] m"
  have len: "length ?m = length m" by (rule fold_xor_at_length)
  have a: "?m ! (i + n) = m ! (i + n)"
    using Suc.IH [of "i + n"] Suc.prems by simp
  have b: "?m ! k = (if i \<le> k \<and> k < i + n then m ! k XOR f (k - i) else m ! k)"
    using Suc.IH [of k] Suc.prems by simp
  show ?case
  proof (cases "k = i + n")
    case True
    then show ?thesis using Suc.prems a len by simp
  next
    case False
    then show ?thesis using Suc.prems b len by (auto simp: nth_list_update)
  qed
qed

lemma fold_xor_at_swap:
  "fold (\<lambda>i m. m[i + j := m ! (i + j) XOR f i]) [0..<n] m =
   fold (\<lambda>i m. m[j + i := m ! (j + i) XOR f i]) [0..<n] m"
  by (simp add: add.commute)

lemma length_xorl [simp]: "length (xorl a b) = min (length a) (length b)"
  by (simp add: xorl_def)

lemma nth_xorl: "k < length a \<Longrightarrow> k < length b \<Longrightarrow> xorl a b ! k = a ! k XOR b ! k"
  by (simp add: xorl_def)

lemma fold_horner_xorl:
  "length a = length b \<Longrightarrow>
   fold (\<lambda>c y. gf_mul y r XOR c) (xorl a b) (u XOR v) =
   fold (\<lambda>c y. gf_mul y r XOR c) a u XOR fold (\<lambda>c y. gf_mul y r XOR c) b v"
proof (induction a b arbitrary: u v rule: list_induct2)
  case Nil
  then show ?case by (simp add: xorl_def)
next
  case (Cons x xs y ys)
  have "gf_mul (u XOR v) r XOR (x XOR y) = (gf_mul u r XOR x) XOR (gf_mul v r XOR y)"
    by (simp add: gf_mul_xor_left ac_simps)
  with Cons.IH [of "gf_mul u r XOR x" "gf_mul v r XOR y"] show ?case
    by (simp add: xorl_def)
qed

lemma horner_xorl:
  "length a = length b \<Longrightarrow> horner r (xorl a b) = horner r a XOR horner r b"
  using fold_horner_xorl [of a b r 0 0] by (simp add: horner_def)

lemma fold_horner_zeros: "fold (\<lambda>c y. gf_mul y r XOR c) (replicate n 0) 0 = 0"
  by (induction n) simp_all

lemma horner_padded:
  "horner r p = 0 \<Longrightarrow> horner r (replicate i 0 @ p @ replicate k 0) = 0"
  unfolding horner_def by (simp only: fold_append o_apply fold_horner_zeros)

lemma fold_horner_scaled:
  "fold (\<lambda>c y. gf_mul y r XOR c) (map (\<lambda>x. gf_mul x c) p) (gf_mul a c) =
   gf_mul (fold (\<lambda>c y. gf_mul y r XOR c) p a) c"
proof (induction p arbitrary: a)
  case Nil
  then show ?case by simp
next
  case (Cons x xs)
  have "gf_mul (gf_mul a c) r = gf_mul (gf_mul a r) c"
    by (simp add: gf_mul_assoc gf_mul_commute [of c r])
  then have "gf_mul (gf_mul a c) r XOR gf_mul x c = gf_mul (gf_mul a r XOR x) c"
    by (simp add: gf_mul_xor_left)
  with Cons.IH [of "gf_mul a r XOR x"] show ?case by simp
qed

lemma horner_scaled: "horner r (map (\<lambda>x. gf_mul x c) p) = gf_mul (horner r p) c"
  using fold_horner_scaled [of r c p 0] by (simp add: horner_def)

lemma horner_snoc: "horner r (p @ [c]) = gf_mul (horner r p) r XOR c"
  by (simp add: horner_def)

lemma horner_zero_cons: "horner r (0 # p) = horner r p"
  by (simp add: horner_def)

lemma enc_inner_xorl:
  assumes "i + length g \<le> length m"
  shows "fold (\<lambda>j m. m[i + j := m ! (i + j) XOR gf_mul (g ! j) c]) [0..<length g] m =
    xorl m (replicate i 0 @ map (\<lambda>x. gf_mul x c) g @ replicate (length m - i - length g) 0)"
    (is "?l = xorl m ?pad")
proof (rule nth_equalityI)
  show "length ?l = length (xorl m ?pad)"
    using assms by (simp add: fold_xor_at_length)
next
  fix k assume "k < length ?l"
  then have k: "k < length m" by (simp add: fold_xor_at_length)
  have pad: "?pad ! k = (if i \<le> k \<and> k < i + length g then gf_mul (g ! (k - i)) c else 0)"
    using k assms by (auto simp: nth_append)
  have "?l ! k = (if i \<le> k \<and> k < i + length g then m ! k XOR gf_mul (g ! (k - i)) c else m ! k)"
    using assms k by (rule fold_xor_at_nth)
  moreover have "xorl m ?pad ! k = m ! k XOR ?pad ! k"
    using k assms by (intro nth_xorl) simp_all
  ultimately show "?l ! k = xorl m ?pad ! k"
    by (simp only: pad) simp
qed

lemma enc_step_length: "length (enc_step g i m) = length m"
  by (simp add: enc_step_def Let_def fold_xor_at_length)

lemma enc_loop_length: "length (fold (enc_step g) [0..<k] m0) = length m0"
  by (induction k) (simp_all add: enc_step_length)

lemma enc_loop_inv:
  assumes g: "g \<noteq> []" "g ! 0 = 1"
  shows "k + length g \<le> length m0 + 1 \<Longrightarrow>
    (\<forall>r. horner r g = 0 \<longrightarrow> horner r (fold (enc_step g) [0..<k] m0) = horner r m0)
    \<and> (\<forall>j<k. fold (enc_step g) [0..<k] m0 ! j = 0)"
proof (induction k)
  case 0
  then show ?case by simp
next
  case (Suc k)
  let ?m = "fold (enc_step g) [0..<k] m0"
  let ?c = "?m ! k"
  let ?pad = "replicate k 0 @ map (\<lambda>x. gf_mul x ?c) g @ replicate (length ?m - k - length g) 0"
  have len: "length ?m = length m0" by (rule enc_loop_length)
  from Suc.prems have fit: "k + length g \<le> length ?m" by (simp add: len)
  from Suc have IH1: "\<And>r. horner r g = 0 \<Longrightarrow> horner r ?m = horner r m0"
    and IH2: "\<And>j. j < k \<Longrightarrow> ?m ! j = 0" by simp_all
  have next_eq: "fold (enc_step g) [0..<Suc k] m0 = enc_step g k ?m" by simp
  show ?case
  proof (cases "?c = 0")
    case True
    then have "enc_step g k ?m = ?m" by (simp add: enc_step_def)
    with True IH1 IH2 show ?thesis
      unfolding next_eq by (auto simp: less_Suc_eq)
  next
    case False
    then have step: "enc_step g k ?m = xorl ?m ?pad"
      using enc_inner_xorl [OF fit, of ?c] by (simp add: enc_step_def)
    have lpad: "length ?pad = length ?m" using fit by simp
    have root: "horner r ?pad = 0" if "horner r g = 0" for r
      using that by (intro horner_padded) (simp add: horner_scaled)
    have h: "horner r (xorl ?m ?pad) = horner r m0" if "horner r g = 0" for r
      using that IH1 root lpad by (simp add: horner_xorl)
    have z: "xorl ?m ?pad ! j = 0" if "j < Suc k" for j
    proof (cases "j = k")
      case True
      have "k < length ?m" using fit g by (cases g) simp_all
      moreover have "?pad ! k = gf_mul (g ! 0) ?c"
        using g by (simp add: nth_append)
      ultimately have "xorl ?m ?pad ! k = ?c XOR gf_mul (g ! 0) ?c"
        using lpad by (simp add: nth_xorl)
      with True g show ?thesis by simp
    next
      case False
      with that have j: "j < k" by simp
      then have "j < length ?m" using fit by simp
      moreover have "?pad ! j = 0" using j by (simp add: nth_append)
      ultimately have "xorl ?m ?pad ! j = ?m ! j XOR 0"
        using lpad by (simp add: nth_xorl)
      with IH2 [OF j] show ?thesis by simp
    qed
    show ?thesis unfolding next_eq step using h z by blast
  qed
qed

lemma fold_update_length:
  "length (fold (\<lambda>j m. m[p j := q j m]) js m) = length m"
  by (induction js arbitrary: m) simp_all

lemma xorl_zero_right: "xorl a (replicate (length a) 0) = a"
  by (induction a) (simp_all add: xorl_def)

lemma xorl_zero_left: "xorl (replicate (length b) 0) b = b"
  by (induction b) (simp_all add: xorl_def)

lemma xorl_append:
  "length a = length b \<Longrightarrow> xorl (a @ c) (b @ d) = xorl a b @ xorl c d"
  by (simp add: xorl_def)

lemma gf_poly_mul_linear_factor:
  assumes "g \<noteq> []"
  shows "gf_poly_mul g [1, a] = xorl (g @ [0]) (0 # map (\<lambda>x. gf_mul x a) g)"
proof -
  let ?n = "length g"
  let ?r0 = "replicate (Suc ?n) (0::byte)"
  let ?r1 = "fold (\<lambda>i r. r[0 + i := r ! (0 + i) XOR gf_mul (g ! i) 1]) [0..<?n] ?r0"
  let ?r2 = "fold (\<lambda>i r. r[1 + i := r ! (1 + i) XOR gf_mul (g ! i) a]) [0..<?n] ?r1"
  have l1: "length ?r1 = Suc ?n" by (simp add: fold_update_length)
  have l2: "length ?r2 = Suc ?n" by (simp add: fold_update_length)
  have n1: "?r1 ! k = (g @ [0]) ! k" if "k < Suc ?n" for k
  proof -
    have "?r1 ! k = (if 0 \<le> k \<and> k < 0 + ?n then ?r0 ! k XOR gf_mul (g ! (k - 0)) 1 else ?r0 ! k)"
      using that by (intro fold_xor_at_nth) simp_all
    with that show ?thesis by (auto simp: nth_append less_Suc_eq simp del: replicate_Suc)
  qed
  have n2: "?r2 ! k = (g @ [0]) ! k XOR (0 # map (\<lambda>x. gf_mul x a) g) ! k" if "k < Suc ?n" for k
  proof -
    have "?r2 ! k = (if 1 \<le> k \<and> k < 1 + ?n then ?r1 ! k XOR gf_mul (g ! (k - 1)) a else ?r1 ! k)"
      using that l1 by (intro fold_xor_at_nth) simp_all
    with that n1 [OF that] show ?thesis by (cases k) simp_all
  qed
  have "[0..<length [1, a]] = [0, 1]" by (simp add: upt_rec)
  then have "gf_poly_mul g [1, a] = ?r2"
    using assms by (simp add: gf_poly_mul_def)
  also have "\<dots> = xorl (g @ [0]) (0 # map (\<lambda>x. gf_mul x a) g)"
  proof (rule nth_equalityI)
    show "length ?r2 = length (xorl (g @ [0]) (0 # map (\<lambda>x. gf_mul x a) g))"
      by (simp only: l2) simp
  next
    fix k assume "k < length ?r2"
    then have k: "k < Suc ?n" by (simp only: l2)
    then show "?r2 ! k = xorl (g @ [0]) (0 # map (\<lambda>x. gf_mul x a) g) ! k"
      by (simp only: n2 [OF k]) (simp add: nth_xorl)
  qed
  finally show ?thesis .
qed

lemma horner_linear_factor:
  "g \<noteq> [] \<Longrightarrow> horner r (gf_poly_mul g [1, a]) = gf_mul (horner r g) (r XOR a)"
  by (simp add: gf_poly_mul_linear_factor horner_xorl horner_snoc horner_zero_cons
      horner_scaled gf_mul_xor_right)

lemma gen_Suc:
  "rs_generator_poly (Suc n) = gf_poly_mul (rs_generator_poly n) [1, of_nat (GF_EXP ! n)]"
  by (simp add: rs_generator_poly_def)

lemma gen_length: "length (rs_generator_poly n) = Suc n"
proof (induction n)
  case 0
  then show ?case by (simp add: rs_generator_poly_def)
next
  case (Suc n)
  then have "rs_generator_poly n \<noteq> []" by auto
  then show ?case using Suc by (simp add: gen_Suc gf_poly_mul_linear_factor)
qed

lemma gen_monic: "rs_generator_poly n ! 0 = 1"
proof (induction n)
  case 0
  then show ?case by (simp add: rs_generator_poly_def)
next
  case (Suc n)
  have ne: "rs_generator_poly n \<noteq> []" using gen_length [of n] by auto
  then show ?case using Suc
    by (simp add: gen_Suc gf_poly_mul_linear_factor nth_xorl gen_length nth_append)
qed

lemma gen_roots:
  "n \<le> 255 \<Longrightarrow> i < n \<Longrightarrow> horner (gexp i) (rs_generator_poly n) = 0"
proof (induction n)
  case 0
  then show ?case by simp
next
  case (Suc n)
  have ne: "rs_generator_poly n \<noteq> []" using gen_length [of n] by auto
  from Suc.prems have n: "n < 255" by simp
  then have a: "(of_nat (GF_EXP ! n) :: byte) = gexp n"
    by (simp add: GF_EXP_nth gexp_def)
  have "horner (gexp i) (rs_generator_poly (Suc n)) =
      gf_mul (horner (gexp i) (rs_generator_poly n)) (gexp i XOR gexp n)"
    by (simp only: gen_Suc a horner_linear_factor [OF ne])
  also have "\<dots> = 0"
  proof (cases "i = n")
    case True
    then show ?thesis by simp
  next
    case False
    with Suc.prems have "i < n" by simp
    with Suc.IH n show ?thesis by simp
  qed
  finally show ?case .
qed

lemma rs_encode_eq:
  "rs_encode data nsym =
     data @ drop (length data)
       (fold (enc_step (rs_generator_poly nsym)) [0..<length data] (data @ replicate nsym 0))"
  by (simp add: rs_encode_def enc_step_def [abs_def] Let_def)

lemma rs_encode_length: "length (rs_encode data nsym) = length data + nsym"
  by (simp add: rs_encode_eq enc_loop_length)

lemma rs_encode_systematic: "take (length data) (rs_encode data nsym) = data"
  by (simp add: rs_encode_eq)

lemma rs_encode_root:
  assumes "nsym \<le> 255" "i < nsym"
  shows "horner (gexp i) (rs_encode data nsym) = 0"
proof -
  let ?g = "rs_generator_poly nsym"
  let ?n = "length data"
  let ?ini = "data @ replicate nsym 0"
  let ?m = "fold (enc_step ?g) [0..<?n] ?ini"
  let ?r = "gexp i"
  have g: "?g \<noteq> []" "?g ! 0 = 1"
    using gen_length [of nsym] gen_monic [of nsym] by auto
  have root: "horner ?r ?g = 0" using assms by (rule gen_roots)
  have "?n + length ?g \<le> length ?ini + 1" by (simp add: gen_length)
  from enc_loop_inv [OF g this] root
  have hm: "horner ?r ?m = horner ?r ?ini" and z: "\<And>j. j < ?n \<Longrightarrow> ?m ! j = 0"
    by blast+
  have lm: "length ?m = ?n + nsym" by (simp add: enc_loop_length)
  have "take ?n ?m = replicate ?n 0"
    using z lm by (intro nth_equalityI) simp_all
  then have m: "?m = replicate ?n 0 @ drop ?n ?m"
    by (metis append_take_drop_id)
  have "length (drop ?n ?m) = nsym" by (simp add: enc_loop_length)
  then have "xorl (replicate nsym 0) (drop ?n ?m) = drop ?n ?m"
    using xorl_zero_left [of "drop ?n ?m"] by simp
  then have "xorl ?ini (replicate ?n 0 @ drop ?n ?m) = data @ drop ?n ?m"
    by (simp add: xorl_append xorl_zero_right)
  then have "rs_encode data nsym = xorl ?ini (replicate ?n 0 @ drop ?n ?m)"
    by (simp add: rs_encode_eq)
  also have "\<dots> = xorl ?ini ?m" using m by simp
  finally have "horner ?r (rs_encode data nsym) = horner ?r ?ini XOR horner ?r ?m"
    using lm by (simp add: horner_xorl)
  with hm show ?thesis by simp
qed

lemma fold_index_tl:
  "fold (\<lambda>i y. f y ((x # xs) ! i)) [1..<length (x # xs)] a = fold (\<lambda>c y. f y c) xs a"
proof -
  have "[1..<length (x # xs)] = map Suc [0..<length xs]"
    by (simp add: map_Suc_upt)
  then have "fold (\<lambda>i y. f y ((x # xs) ! i)) [1..<length (x # xs)] a =
      fold (\<lambda>i y. f y (xs ! i)) [0..<length xs] a"
    by (simp only: fold_map) (simp add: comp_def)
  also have "\<dots> = fold (\<lambda>c y. f y c) (map (\<lambda>i. xs ! i) [0..<length xs]) a"
    by (simp only: fold_map) (simp add: comp_def)
  finally show ?thesis by (simp only: map_nth)
qed

lemma gf_poly_eval_horner: "poly \<noteq> [] \<Longrightarrow> gf_poly_eval poly x = Inr (horner x poly)"
proof (cases poly)
  case Nil
  assume "poly \<noteq> []"
  with Nil show ?thesis by simp
next
  case (Cons c cs)
  have "fold (\<lambda>i y. gf_mul y x XOR (c # cs) ! i) [1..<length (c # cs)] c =
      fold (\<lambda>c y. gf_mul y x XOR c) cs c"
    by (rule fold_index_tl [where f = "\<lambda>y c. gf_mul y x XOR c"])
  then show ?thesis using Cons by (simp add: gf_poly_eval_def horner_def)
qed

lemma collect_map_Inr: "collect (map (\<lambda>i. Inr (f i)) xs) = Inr (map f xs)"
  by (induction xs) simp_all

lemma rs_syndromes_horner:
  "msg \<noteq> [] \<Longrightarrow>
   rs_syndromes msg nsym = Inr (0 # map (\<lambda>i. horner (of_nat (GF_EXP ! i)) msg) [0..<nsym])"
  by (simp add: rs_syndromes_def gf_poly_eval_horner collect_map_Inr)

lemma rs_syndromes_codeword:
  assumes "nsym \<le> 255"
  shows "rs_syndromes (rs_encode data nsym) nsym = Inr (replicate (Suc nsym) 0)"
proof (cases "rs_encode data nsym = []")
  case True
  then have "nsym = 0" using rs_encode_length [of data nsym] by simp
  then show ?thesis by (simp add: rs_syndromes_def)
next
  case False
  have "map (\<lambda>i. horner (of_nat (GF_EXP ! i)) (rs_encode data nsym)) [0..<nsym] =
      replicate nsym 0"
  proof (rule nth_equalityI)
    fix i assume "i < length (map (\<lambda>i. horner (of_nat (GF_EXP ! i)) (rs_encode data nsym)) [0..<nsym])"
    then have i: "i < nsym" by simp
    with assms have "(of_nat (GF_EXP ! i) :: byte) = gexp i"
      by (simp add: GF_EXP_nth gexp_def)
    with i assms show "map (\<lambda>i. horner (of_nat (GF_EXP ! i)) (rs_encode data nsym)) [0..<nsym] ! i
        = replicate nsym 0 ! i"
      by (simp add: rs_encode_root)
  qed simp
  with False show ?thesis by (simp add: rs_syndromes_horner)
qed

lemma rs_decode_codeword:
  assumes "0 < nsym" "nsym \<le> 255"
  shows "rs_decode_simple (rs_encode data nsym) nsym = Inr data"
proof -
  have "Max (set (replicate (Suc nsym) (0::byte))) = 0" by (simp del: replicate_Suc)
  then show ?thesis
    using assms by (simp add: rs_decode_simple_def rs_syndromes_codeword rs_encode_length
        rs_encode_systematic del: replicate_Suc)
qed

text \<open>
  C5. For every byte sequence \<open>data\<close>, \<open>rs_encode data RS_NSYM\<close> has length
  \<open>len(data) + RS_NSYM\<close>, begins with \<open>data\<close>, has all its syndromes zero (the list
  that \<open>rs_syndromes\<close> returns is its leading 0 and \<open>RS_NSYM\<close> zeros), and
  \<open>rs_decode_simple\<close> returns exactly \<open>data\<close> on it.
\<close>

theorem rs_encode_systematic_zero_syndromes:
  "length (rs_encode data RS_NSYM) = length data + RS_NSYM
   \<and> take (length data) (rs_encode data RS_NSYM) = data
   \<and> rs_syndromes (rs_encode data RS_NSYM) RS_NSYM = Inr (replicate (Suc RS_NSYM) 0)
   \<and> rs_decode_simple (rs_encode data RS_NSYM) RS_NSYM = Inr data"
proof -
  have n: "0 < RS_NSYM" "RS_NSYM \<le> 255" by (simp_all add: RS_NSYM_def)
  show ?thesis
    using rs_encode_length [of data RS_NSYM] rs_encode_systematic [of data RS_NSYM]
      rs_syndromes_codeword [OF n(2), of data] rs_decode_codeword [OF n, of data]
    by blast
qed

section \<open>Watermark engine: bits, copies, embedding and extraction\<close>




lemma length_bits_of_byte [simp]: "length (bits_of_byte b) = 8"
  by (simp add: bits_of_byte_def)


lemma length_bits_of [simp]: "length (bits_of xs) = 8 * length xs"
  by (induction xs) (simp_all add: bits_of_def)






lemma to_bytes4_header: "n < 2 ^ 32 \<Longrightarrow> to_bytes4 n = Inr (header_of n)"
  by (simp add: to_bytes4_def header_of_def)














lemma length_header_of [simp]: "length (header_of n) = 4"
  by (simp add: header_of_def)









lemma length_payload_bits:
  "length (payload_bits raw) = 8 * (SIGNATURE_REPEATS * (4 + (length raw + RS_NSYM)))"
  by (simp add: payload_bits_def wm_block_def rs_encode_length length_concat sum_list_replicate)


lemma embed_watermark_eq:
  assumes "fs image_path = Some img" and "length (dumps R) + RS_NSYM < 2 ^ 32"
  shows "embed_watermark dumps rsw_name fs image_path R output_path =
    (if height img * width img * 3 < length (payload_bits (dumps R)) then (Inr None, fs)
     else (Inr (Some (out_path rsw_name image_path output_path)),
           fs(out_path rsw_name image_path output_path \<mapsto>
              \<lparr>height = height img, width = width img,
               pix = embedded_pix (dumps R) (pix img), info = Map.empty\<rparr>)))"
  using assms
  by (simp add: embed_watermark_def encode_signature_def rs_encode_length to_bytes4_header
      Let_def payload_bits_def wm_block_def embedded_pix_def out_path_def)

lemma embed_watermark_overflow:
  assumes "fs image_path = Some img" and "\<not> length (dumps R) + RS_NSYM < 2 ^ 32"
  shows "embed_watermark dumps rsw_name fs image_path R output_path = (Inl OverflowError, fs)"
  using assms
  by (simp add: embed_watermark_def encode_signature_def rs_encode_length to_bytes4_def Let_def)















lemma flat_sample: "plain_record [(''nonce'', JStr ''f16823b5''), (''ntime'', JStr ''6964c85e'')]"
  by (simp add: plain_def)

lemma flat_big: "plain_record [(''hash'', JStr (replicate 9990 CHR ''a''))]"
  by (simp add: plain_def)

lemma length_dumps_sample: "length (dumps_sample sample_record) = 39"
  by (simp add: dumps_sample_def sample_record_def quoted_def)


text \<open>
  C7. When the repeated, parity-expanded, length-prefixed payload needs more bits than
  \<open>height * width * 3\<close>, \<open>embed_watermark\<close> fails and the file system is as before: it
  returns \<open>None\<close> (or raises \<open>OverflowError\<close> when the block length does not fit the
  four header bytes), no file is written and the input image is untouched.
\<close>

theorem capacity_rejection:
  assumes "fs image_path = Some img"
    and "height img * width img * 3
           < 8 * (SIGNATURE_REPEATS * (4 + (length (dumps R) + RS_NSYM)))"
  shows "embed_watermark dumps rsw_name fs image_path R output_path =
           (if length (dumps R) + RS_NSYM < 2 ^ 32 then Inr None else Inl OverflowError, fs)"
proof (cases "length (dumps R) + RS_NSYM < 2 ^ 32")
  case True
  with assms show ?thesis
    by (simp add: embed_watermark_eq [of fs image_path img] length_payload_bits)
next
  case False
  with assms show ?thesis
    by (simp add: embed_watermark_overflow [of fs image_path img])
qed

text \<open>The sample record does not fit a single pixel.\<close>

theorem capacity_rejection_witness:
  "embed_watermark dumps_sample id [''art.png'' \<mapsto> tiny_image] ''art.png'' sample_record None
     = (Inr None, [''art.png'' \<mapsto> tiny_image])"
  using capacity_rejection [of "[''art.png'' \<mapsto> tiny_image]" "''art.png''" tiny_image
      dumps_sample sample_record id None]
  by (simp add: tiny_image_def length_dumps_sample SIGNATURE_REPEATS_def RS_NSYM_def)






















section \<open>Protocol bridge\<close>




end
